theory Spec2Isabelle
  imports Main "HOL-Library.List_Lexorder" "HOL-Library.Product_Lexorder"
begin

section \<open>Multi-index partition generator\<close>

text \<open>
  \<^verbatim>\<open>ipdiff::ipartition(m, n, c, p)\<close> appends to the vector \<open>c\<close> the multi-indices of
  length \<open>n\<close> and order \<open>m\<close>. A multi-index is a vector of non-negative entries, modelled
  as \<open>nat list\<close>; \<^verbatim>\<open>sum_ivector\<close> is \<open>sum_list\<close>. The outer loop over the coordinate
  \<open>i\<close> is \<open>ipart_i\<close>, the inner loop that increments \<open>r[i]\<close> is \<open>ipart_j\<close>; the output
  vector \<open>c\<close> is threaded through both and through the recursive call. The source reads
  \<open>p[i]\<close> and writes \<open>r[i]\<close> unchecked: \<open>ipartition\<close> returns \<open>None\<close> for a
  non-empty \<open>p\<close> shorter than \<open>n\<close>, where the source reads out of range, and the guard
  \<open>i < length r\<close> of \<open>ipart_j\<close> is true on every call that \<open>ipartition\<close> makes.

  The source adds and compares in 32-bit \<^verbatim>\<open>int\<close>. Every sum it computes is the sum of a
  vector reached by increments from \<open>p\<close>, and an increment is made only from a vector of sum
  at most \<open>m\<close> or from \<open>p\<close> itself, so no sum exceeds the larger of \<open>m + 1\<close> and
  \<open>sum p + 1\<close>. \<open>ipartition\<close> therefore models the source where \<open>m\<close> and the sum of \<open>p\<close> are
  below \<open>2^31 - 1 = 2147483647\<close>, where \<open>sum_list\<close> on \<open>nat\<close> is the sum the source computes;
  beyond that bound a sum of the source may overflow, and the result is \<open>None\<close>.
\<close>

function ipart_i :: "nat \<Rightarrow> nat \<Rightarrow> nat list \<Rightarrow> nat \<Rightarrow> nat list list \<Rightarrow> nat list list"
  and ipart_j :: "nat \<Rightarrow> nat \<Rightarrow> nat \<Rightarrow> nat list \<Rightarrow> nat \<Rightarrow> nat list list \<Rightarrow> nat list list" where
  "ipart_i m n p i c =
     (if i < n then
        (if p \<noteq> [] \<and> p ! i \<noteq> 0 then ipart_i m n p (Suc i) c
         else ipart_i m n p (Suc i) (ipart_j m n i (if p = [] then replicate n 0 else p) 0 c))
      else c)"
| "ipart_j m n i r j c =
     (if j < m \<and> i < length r then
        (let r' = r[i := Suc (r ! i)]; s = sum_list r' in
         if s = m \<and> r' \<notin> set c then ipart_j m n i r' (Suc j) (c @ [r'])
         else if s < m then ipart_j m n i r' (Suc j) (ipart_i m n r' 0 c)
         else c)
      else c)"
  by pat_completeness auto

text \<open>Termination: every recursive call of \<open>ipartition\<close> fixes one more coordinate, so the
  number of zero coordinates of the partition decreases.\<close>

definition zeros_of :: "nat list \<Rightarrow> nat" where
  "zeros_of r = length (filter (\<lambda>x. x = 0) r)"

lemma zeros_of_pos: "i < length r \<Longrightarrow> r ! i = 0 \<Longrightarrow> 0 < zeros_of r"
proof -
  assume "i < length r" "r ! i = 0"
  then have "0 \<in> set r" by (metis nth_mem)
  then have "filter (\<lambda>x. x = 0) r \<noteq> []" by (simp add: filter_empty_conv)
  then show ?thesis by (simp add: zeros_of_def)
qed

lemma zeros_of_Cons: "zeros_of (x # xs) = (if x = 0 then Suc (zeros_of xs) else zeros_of xs)"
  by (simp add: zeros_of_def)

lemma zeros_of_update_Suc:
  "zeros_of (r[i := Suc a]) = zeros_of r - (if i < length r \<and> r ! i = 0 then 1 else 0)"
proof (induction r arbitrary: i)
  case Nil
  then show ?case by (simp add: zeros_of_def)
next
  case (Cons x xs)
  show ?case
  proof (cases i)
    case 0
    then show ?thesis by (simp add: zeros_of_Cons)
  next
    case (Suc k)
    show ?thesis
    proof (cases "k < length xs \<and> xs ! k = 0")
      case True
      then have "0 < zeros_of xs" using zeros_of_pos by blast
      then show ?thesis using Suc True Cons.IH[of k] by (simp add: zeros_of_Cons)
    next
      case False
      then have "zeros_of (xs[k := Suc a]) = zeros_of xs" using Cons.IH[of k] by auto
      then show ?thesis using Suc False by (auto simp: zeros_of_Cons)
    qed
  qed
qed

lemma zeros_of_replicate: "zeros_of (replicate n 0) = n"
  by (simp add: zeros_of_def)

termination ipart_i
  apply (relation "inv_image (less_than <*lex*> less_than)
     (\<lambda>x. case x of
        Inl (m, n, p, i, c) \<Rightarrow> (2 * (if p = [] then n else zeros_of p) + 1, n - i)
      | Inr (m, n, i, r, j, c) \<Rightarrow>
          (if i < length r then 2 * zeros_of (r[i := Suc (r ! i)]) + 2 else 0, m - j))")
  apply (auto simp: zeros_of_update_Suc zeros_of_replicate dest: zeros_of_pos)
  done

definition ipartition :: "nat \<Rightarrow> nat \<Rightarrow> nat list list \<Rightarrow> nat list \<Rightarrow> nat list list option" where
  "ipartition m n c p =
     (if p \<noteq> [] \<and> length p < n then None
      else if 2147483647 \<le> m \<or> 2147483647 \<le> sum_list p then None
      else Some (ipart_i m n p 0 c))"

subsection \<open>The vectors each loop contributes\<close>

text \<open>
  \<open>compl_j n m i r j\<close> are the vectors the inner loop still has to produce when \<open>r[i] = j\<close>:
  those that keep the non-zero coordinates of \<open>r\<close> other than \<open>i\<close> and exceed \<open>j\<close> at \<open>i\<close>.
  \<open>compl_i n m p i\<close> are the vectors the outer loop still has to produce from coordinate
  \<open>i\<close> on.
\<close>

lemma le_pointwise_sum_eq:
  "length r = length v \<Longrightarrow> (\<forall>k<length r. r ! k \<le> v ! k) \<Longrightarrow> sum_list r = sum_list v
     \<Longrightarrow> r = (v::nat list)"
proof (induction r v rule: list_induct2)
  case Nil
  then show ?case by simp
next
  case (Cons x xs y ys)
  have xy: "x \<le> y" using Cons.prems(1) by auto
  have pw: "\<forall>k<length xs. xs ! k \<le> ys ! k" using Cons.prems(1) by auto
  have "sum_list xs \<le> sum_list ys"
    using pw Cons.hyps by (simp add: sum_list_mono2)
  with xy Cons.prems(2) have "x = y" "sum_list xs = sum_list ys" by auto
  with Cons.IH pw show ?case by simp
qed

definition compl_j :: "nat \<Rightarrow> nat \<Rightarrow> nat \<Rightarrow> nat list \<Rightarrow> nat \<Rightarrow> nat list set" where
  "compl_j n m i r j =
     {v. length v = n \<and> sum_list v = m \<and> (\<forall>k<n. k \<noteq> i \<longrightarrow> r ! k \<noteq> 0 \<longrightarrow> v ! k = r ! k) \<and> j < v ! i}"

definition compl_i :: "nat \<Rightarrow> nat \<Rightarrow> nat list \<Rightarrow> nat \<Rightarrow> nat list set" where
  "compl_i n m p i =
     {v. length v = n \<and> sum_list v = m \<and> (\<forall>k<n. p ! k \<noteq> 0 \<longrightarrow> v ! k = p ! k) \<and>
         (\<exists>k. i \<le> k \<and> k < n \<and> p ! k = 0 \<and> v ! k \<noteq> 0)}"

lemma compl_i_done: "n \<le> i \<Longrightarrow> compl_i n m p i = {}"
  by (auto simp: compl_i_def)

lemma compl_i_skip: "p ! i \<noteq> 0 \<Longrightarrow> compl_i n m p i = compl_i n m p (Suc i)"
proof -
  assume nz: "p ! i \<noteq> 0"
  have "(\<exists>k. i \<le> k \<and> k < n \<and> p ! k = 0 \<and> v ! k \<noteq> 0) =
        (\<exists>k. Suc i \<le> k \<and> k < n \<and> p ! k = 0 \<and> v ! k \<noteq> 0)" for v :: "nat list"
  proof
    assume "\<exists>k. i \<le> k \<and> k < n \<and> p ! k = 0 \<and> v ! k \<noteq> 0"
    then obtain k where k: "i \<le> k" "k < n" "p ! k = 0" "v ! k \<noteq> 0" by blast
    with nz have "k \<noteq> i" by auto
    with k show "\<exists>k. Suc i \<le> k \<and> k < n \<and> p ! k = 0 \<and> v ! k \<noteq> 0"
      by (intro exI[of _ k]) simp
  next
    assume "\<exists>k. Suc i \<le> k \<and> k < n \<and> p ! k = 0 \<and> v ! k \<noteq> 0"
    then obtain k where k: "Suc i \<le> k" "k < n" "p ! k = 0" "v ! k \<noteq> 0" by blast
    then show "\<exists>k. i \<le> k \<and> k < n \<and> p ! k = 0 \<and> v ! k \<noteq> 0"
      by (intro exI[of _ k]) simp
  qed
  then show ?thesis unfolding compl_i_def by simp
qed

lemma compl_i_step:
  assumes "i < n" "p ! i = 0"
  shows "compl_i n m p i = compl_j n m i p 0 \<union> compl_i n m p (Suc i)"
proof (intro set_eqI iffI)
  fix v assume v: "v \<in> compl_i n m p i"
  then obtain k where k: "i \<le> k" "k < n" "p ! k = 0" "v ! k \<noteq> 0"
    unfolding compl_i_def by blast
  have base: "length v = n" "sum_list v = m" "\<forall>k<n. p ! k \<noteq> 0 \<longrightarrow> v ! k = p ! k"
    using v unfolding compl_i_def by auto
  show "v \<in> compl_j n m i p 0 \<union> compl_i n m p (Suc i)"
  proof (cases "v ! i = 0")
    case True
    with k have "k \<noteq> i" by auto
    with k have "Suc i \<le> k" by simp
    with k base have "v \<in> compl_i n m p (Suc i)" unfolding compl_i_def by blast
    then show ?thesis by simp
  next
    case False
    with base have "v \<in> compl_j n m i p 0" unfolding compl_j_def by simp
    then show ?thesis by simp
  qed
next
  fix v assume "v \<in> compl_j n m i p 0 \<union> compl_i n m p (Suc i)"
  then show "v \<in> compl_i n m p i"
  proof
    assume v: "v \<in> compl_j n m i p 0"
    then have base: "length v = n" "sum_list v = m"
      "\<forall>k<n. k \<noteq> i \<longrightarrow> p ! k \<noteq> 0 \<longrightarrow> v ! k = p ! k" "v ! i \<noteq> 0"
      unfolding compl_j_def by auto
    have "\<forall>k<n. p ! k \<noteq> 0 \<longrightarrow> v ! k = p ! k" using base(3) assms(2) by metis
    moreover have "\<exists>k. i \<le> k \<and> k < n \<and> p ! k = 0 \<and> v ! k \<noteq> 0"
      using assms base(4) by (intro exI[of _ i]) simp
    ultimately show ?thesis using base(1,2) unfolding compl_i_def by simp
  next
    assume v: "v \<in> compl_i n m p (Suc i)"
    then obtain k where k: "Suc i \<le> k" "k < n" "p ! k = 0" "v ! k \<noteq> 0"
      unfolding compl_i_def by blast
    then have "\<exists>k. i \<le> k \<and> k < n \<and> p ! k = 0 \<and> v ! k \<noteq> 0"
      by (intro exI[of _ k]) simp
    then show ?thesis using v unfolding compl_i_def by simp
  qed
qed

lemma compl_j_pointwise:
  assumes "v \<in> compl_j n m i r j" "length r = n" "i < n" "r ! i = j"
  shows "\<forall>k<length (r[i := Suc j]). (r[i := Suc j]) ! k \<le> v ! k"
proof (intro allI impI)
  fix k assume "k < length (r[i := Suc j])"
  then have kn: "k < n" using assms(2) by simp
  show "(r[i := Suc j]) ! k \<le> v ! k"
  proof (cases "k = i")
    case True
    then show ?thesis using assms kn unfolding compl_j_def by simp
  next
    case False
    then have "r ! k \<noteq> 0 \<longrightarrow> v ! k = r ! k" using assms(1) kn unfolding compl_j_def by simp
    then show ?thesis using False by (cases "r ! k = 0") simp_all
  qed
qed

lemma compl_j_sum_le:
  assumes "v \<in> compl_j n m i r j" "length r = n" "i < n" "r ! i = j"
  shows "sum_list (r[i := Suc j]) \<le> m"
proof -
  have "length (r[i := Suc j]) = length v" "sum_list v = m"
    using assms unfolding compl_j_def by auto
  then show ?thesis
    using compl_j_pointwise[OF assms] sum_list_mono2[of "r[i := Suc j]" v] by auto
qed

lemma compl_j_exhausted:
  assumes "m \<le> j" "i < n"
  shows "compl_j n m i r j = {}"
proof -
  have False if v: "v \<in> compl_j n m i r j" for v
  proof -
    have len: "length v = n" and sm: "sum_list v = m" and gt: "j < v ! i"
      using v unfolding compl_j_def by auto
    have "v ! i \<in> set v" using len assms(2) by simp
    then have "v ! i \<le> sum_list v" by (simp add: member_le_sum_list)
    with sm gt assms(1) show False by simp
  qed
  then show ?thesis by blast
qed

lemma compl_j_over:
  assumes "length r = n" "i < n" "r ! i = j" "m < sum_list (r[i := Suc j])"
  shows "compl_j n m i r j = {}"
proof -
  have False if v: "v \<in> compl_j n m i r j" for v
    using compl_j_sum_le[OF v assms(1-3)] assms(4) by simp
  then show ?thesis by blast
qed

lemma compl_j_update:
  "v \<in> compl_j n m i (r[i := x]) j \<longleftrightarrow> v \<in> compl_j n m i r j"
  unfolding compl_j_def by (simp add: nth_list_update)

lemma compl_j_split:
  "compl_j n m i r j = {v \<in> compl_j n m i r j. v ! i = Suc j} \<union> compl_j n m i (r[i := Suc j]) (Suc j)"
proof (intro set_eqI iffI)
  fix v assume v: "v \<in> compl_j n m i r j"
  show "v \<in> {v \<in> compl_j n m i r j. v ! i = Suc j} \<union> compl_j n m i (r[i := Suc j]) (Suc j)"
  proof (cases "v ! i = Suc j")
    case True
    with v show ?thesis by simp
  next
    case False
    moreover have "j < v ! i" using v unfolding compl_j_def by simp
    ultimately have "Suc j < v ! i" by simp
    with v have "v \<in> compl_j n m i r (Suc j)" unfolding compl_j_def by simp
    then show ?thesis by (simp add: compl_j_update)
  qed
next
  fix v assume "v \<in> {v \<in> compl_j n m i r j. v ! i = Suc j} \<union> compl_j n m i (r[i := Suc j]) (Suc j)"
  then show "v \<in> compl_j n m i r j"
  proof
    assume "v \<in> {v \<in> compl_j n m i r j. v ! i = Suc j}"
    then show ?thesis by simp
  next
    assume "v \<in> compl_j n m i (r[i := Suc j]) (Suc j)"
    then have "v \<in> compl_j n m i r (Suc j)" by (simp add: compl_j_update)
    then show ?thesis unfolding compl_j_def by simp
  qed
qed

lemma compl_j_exact:
  assumes "length r = n" "i < n" "r ! i = j" "sum_list (r[i := Suc j]) = m"
  shows "compl_j n m i r j = {r[i := Suc j]}"
proof -
  have "v = r[i := Suc j]" if "v \<in> compl_j n m i r j" for v
  proof -
    have "length (r[i := Suc j]) = length v" "sum_list v = m"
      using that assms unfolding compl_j_def by auto
    then show ?thesis
      using compl_j_pointwise[OF that assms(1-3)] assms(4)
        le_pointwise_sum_eq[of "r[i := Suc j]" v] by auto
  qed
  moreover have "r[i := Suc j] \<in> compl_j n m i r j"
    using assms unfolding compl_j_def by (auto simp: nth_list_update)
  ultimately show ?thesis by blast
qed

lemma compl_j_recurse:
  assumes "length r = n" "i < n" "r ! i = j" "sum_list (r[i := Suc j]) < m"
  shows "{v \<in> compl_j n m i r j. v ! i = Suc j} = compl_i n m (r[i := Suc j]) 0"
proof (intro set_eqI iffI)
  fix v assume v: "v \<in> {v \<in> compl_j n m i r j. v ! i = Suc j}"
  let ?r = "r[i := Suc j]"
  have vj: "v \<in> compl_j n m i r j" and vi: "v ! i = Suc j" using v by auto
  have len: "length v = n" and sm: "sum_list v = m" using vj unfolding compl_j_def by auto
  have agree: "\<forall>k<n. ?r ! k \<noteq> 0 \<longrightarrow> v ! k = ?r ! k"
    using vj vi assms unfolding compl_j_def by (auto simp: nth_list_update)
  have "\<exists>k<n. ?r ! k = 0 \<and> v ! k \<noteq> 0"
  proof (rule ccontr)
    assume "\<not> ?thesis"
    with agree have "\<forall>k<n. v ! k = ?r ! k" by metis
    then have "v = ?r" using len assms(1) by (simp add: list_eq_iff_nth_eq)
    with sm assms(4) show False by simp
  qed
  then show "v \<in> compl_i n m ?r 0"
    using len sm agree unfolding compl_i_def by auto
next
  fix v assume v: "v \<in> compl_i n m (r[i := Suc j]) 0"
  let ?r = "r[i := Suc j]"
  have len: "length v = n" and sm: "sum_list v = m"
    and agree: "\<forall>k<n. ?r ! k \<noteq> 0 \<longrightarrow> v ! k = ?r ! k"
    using v unfolding compl_i_def by auto
  have vi: "v ! i = Suc j" using agree assms(1,2) by simp
  have "k \<noteq> i \<longrightarrow> r ! k \<noteq> 0 \<longrightarrow> v ! k = r ! k" if "k < n" for k
    using agree that by (auto simp: nth_list_update)
  then have "v \<in> compl_j n m i r j"
    using len sm vi unfolding compl_j_def by simp
  with vi show "v \<in> {v \<in> compl_j n m i r j. v ! i = Suc j}" by simp
qed

lemma ipart_sound:
  "length p = n \<longrightarrow>
     set (ipart_i m n p i c) = set c \<union> compl_i n m p i \<and>
     (distinct c \<longrightarrow> distinct (ipart_i m n p i c))"
  "length r = n \<and> i' < n \<and> r ! i' = j \<longrightarrow>
     set (ipart_j m n i' r j c) = set c \<union> compl_j n m i' r j \<and>
     (distinct c \<longrightarrow> distinct (ipart_j m n i' r j c))"
proof (induction m n p i c and m n i' r j c rule: ipart_i_ipart_j.induct)
  case (1 m n p i c)
  show ?case
  proof (intro impI)
    assume len: "length p = n"
    show "set (ipart_i m n p i c) = set c \<union> compl_i n m p i \<and>
          (distinct c \<longrightarrow> distinct (ipart_i m n p i c))"
    proof (cases "i < n")
      case False
      then have "ipart_i m n p i c = c" by (simp add: ipart_i.simps[of m n p i c])
      moreover have "compl_i n m p i = {}" using False by (simp add: compl_i_done)
      ultimately show ?thesis by simp
    next
      case True
      then have pne: "p \<noteq> []" using len by auto
      show ?thesis
      proof (cases "p ! i \<noteq> 0")
        case nz: True
        have eq: "ipart_i m n p i c = ipart_i m n p (Suc i) c"
          using True nz pne by (simp add: ipart_i.simps[of m n p i c])
        have "compl_i n m p i = compl_i n m p (Suc i)" using nz by (rule compl_i_skip)
        then show ?thesis using "1.IH"(1)[OF True] nz pne len eq by simp
      next
        case z: False
        let ?c1 = "ipart_j m n i p 0 c"
        have eq: "ipart_i m n p i c = ipart_i m n p (Suc i) ?c1"
          using True z pne by (simp add: ipart_i.simps[of m n p i c])
        have g: "\<not> (p \<noteq> [] \<and> p ! i \<noteq> 0)" using z by simp
        have ih_j: "set ?c1 = set c \<union> compl_j n m i p 0 \<and> (distinct c \<longrightarrow> distinct ?c1)"
          using "1.IH"(2)[OF True g] pne len True z by simp
        have ih_i: "set (ipart_i m n p (Suc i) ?c1) = set ?c1 \<union> compl_i n m p (Suc i) \<and>
                    (distinct ?c1 \<longrightarrow> distinct (ipart_i m n p (Suc i) ?c1))"
          using "1.IH"(3)[OF True g] pne len by simp
        have "compl_i n m p i = compl_j n m i p 0 \<union> compl_i n m p (Suc i)"
          using True z by (simp add: compl_i_step)
        then show ?thesis using ih_j ih_i eq by auto
      qed
    qed
  qed
next
  case (2 m n i r j c)
  show ?case
  proof (intro impI)
    assume pre: "length r = n \<and> i < n \<and> r ! i = j"
    then have len: "length r = n" and i: "i < n" and ri: "r ! i = j" by auto
    let ?r = "r[i := Suc j]"
    have r'_props: "length ?r = n \<and> i < n \<and> ?r ! i = Suc j" using len i by simp
    show "set (ipart_j m n i r j c) = set c \<union> compl_j n m i r j \<and>
          (distinct c \<longrightarrow> distinct (ipart_j m n i r j c))"
    proof (cases "j < m")
      case False
      then have "ipart_j m n i r j c = c" by (simp add: ipart_j.simps[of m n i r j c])
      moreover have "compl_j n m i r j = {}" using False i by (simp add: compl_j_exhausted)
      ultimately show ?thesis by simp
    next
      case True
      then have guard: "j < m \<and> i < length r" using len i by simp
      have x: "?r = r[i := Suc (r ! i)]" using ri by simp
      consider (exact_new) "sum_list ?r = m" "?r \<notin> set c"
        | (exact_old) "sum_list ?r = m" "?r \<in> set c"
        | (less) "sum_list ?r < m"
        | (over) "m < sum_list ?r"
        by linarith
      then show ?thesis
      proof cases
        case exact_new
        have eq: "ipart_j m n i r j c = ipart_j m n i ?r (Suc j) (c @ [?r])"
          using guard ri exact_new by (simp add: ipart_j.simps[of m n i r j c] Let_def)
        have ih: "set (ipart_j m n i ?r (Suc j) (c @ [?r])) = set (c @ [?r]) \<union> compl_j n m i ?r (Suc j) \<and>
                  (distinct (c @ [?r]) \<longrightarrow> distinct (ipart_j m n i ?r (Suc j) (c @ [?r])))"
          using "2.IH"(1)[OF guard x refl] exact_new r'_props by simp
        have a: "compl_j n m i r j = {?r}"
          using len i ri exact_new(1) by (rule compl_j_exact)
        have b: "compl_j n m i ?r (Suc j) \<subseteq> {?r}"
          using compl_j_split[of n m i r j] a by blast
        show ?thesis using eq ih a b exact_new(2) by auto
      next
        case exact_old
        have eq: "ipart_j m n i r j c = c"
          using guard ri exact_old by (simp add: ipart_j.simps[of m n i r j c] Let_def)
        have a: "compl_j n m i r j = {?r}"
          using len i ri exact_old(1) by (rule compl_j_exact)
        show ?thesis using eq a exact_old(2) by auto
      next
        case less
        let ?c1 = "ipart_i m n ?r 0 c"
        have eq: "ipart_j m n i r j c = ipart_j m n i ?r (Suc j) ?c1"
          using guard ri less by (simp add: ipart_j.simps[of m n i r j c] Let_def)
        have g: "\<not> (sum_list ?r = m \<and> ?r \<notin> set c)" using less by simp
        have ih_i: "set ?c1 = set c \<union> compl_i n m ?r 0 \<and> (distinct c \<longrightarrow> distinct ?c1)"
          using "2.IH"(2)[OF guard x refl g less] r'_props by simp
        have ih_j: "set (ipart_j m n i ?r (Suc j) ?c1) = set ?c1 \<union> compl_j n m i ?r (Suc j) \<and>
                    (distinct ?c1 \<longrightarrow> distinct (ipart_j m n i ?r (Suc j) ?c1))"
          using "2.IH"(3)[OF guard x refl g less] r'_props by simp
        have a: "{v \<in> compl_j n m i r j. v ! i = Suc j} = compl_i n m ?r 0"
          using len i ri less by (rule compl_j_recurse)
        have b: "compl_j n m i r j = compl_i n m ?r 0 \<union> compl_j n m i ?r (Suc j)"
          using compl_j_split[of n m i r j] a by simp
        show ?thesis using eq ih_i ih_j b by auto
      next
        case over
        have eq: "ipart_j m n i r j c = c"
          using guard ri over by (simp add: ipart_j.simps[of m n i r j c] Let_def)
        have "compl_j n m i r j = {}" using len i ri over by (rule compl_j_over)
        then show ?thesis using eq by simp
      qed
    qed
  qed
qed

lemma ipart_i_Nil: "ipart_i m n [] i c = ipart_i m n (replicate n 0) i c"
proof (induction "n - i" arbitrary: i c)
  case 0
  then have "\<not> i < n" by simp
  then show ?case
    by (simp add: ipart_i.simps[of m n "[]" i c] ipart_i.simps[of m n "replicate n 0" i c])
next
  case (Suc d)
  then have lt: "i < n" and d: "d = n - Suc i" by auto
  have rne: "replicate n (0::nat) \<noteq> []" using lt by auto
  have a: "ipart_i m n [] i c = ipart_i m n [] (Suc i) (ipart_j m n i (replicate n 0) 0 c)"
    using lt by (simp add: ipart_i.simps[of m n "[]" i c])
  have b: "ipart_i m n (replicate n 0) i c =
           ipart_i m n (replicate n 0) (Suc i) (ipart_j m n i (replicate n 0) 0 c)"
    using lt rne by (simp add: ipart_i.simps[of m n "replicate n 0" i c])
  show ?case using a b Suc.hyps(1)[OF d] by simp
qed

text \<open>
  \<open>init_r\<close> is the vector \<open>r\<close> the source starts from (all zero when \<open>p\<close> is empty, \<open>p\<close>
  otherwise); \<open>agrees_fixed p v\<close> says that \<open>v\<close> keeps the coordinates the caller fixed, which
  are the non-zero ones of \<open>p\<close>.
\<close>

definition init_r :: "nat \<Rightarrow> nat list \<Rightarrow> nat list" where
  "init_r n p = (if p = [] then replicate n 0 else p)"

definition agrees_fixed :: "nat list \<Rightarrow> nat list \<Rightarrow> bool" where
  "agrees_fixed p v \<longleftrightarrow> (\<forall>k<length p. p ! k \<noteq> 0 \<longrightarrow> v ! k = p ! k)"

lemma compl_i_0:
  assumes "length p = n"
  shows "compl_i n m p 0 = {v. length v = n \<and> sum_list v = m \<and> agrees_fixed p v \<and> v \<noteq> p}"
proof (intro set_eqI iffI)
  fix v assume v: "v \<in> compl_i n m p 0"
  then obtain k where k: "k < n" "p ! k = 0" "v ! k \<noteq> 0" unfolding compl_i_def by blast
  then have "v \<noteq> p" by auto
  then show "v \<in> {v. length v = n \<and> sum_list v = m \<and> agrees_fixed p v \<and> v \<noteq> p}"
    using v assms unfolding compl_i_def agrees_fixed_def by simp
next
  fix v assume v: "v \<in> {v. length v = n \<and> sum_list v = m \<and> agrees_fixed p v \<and> v \<noteq> p}"
  then have len: "length v = n" and sm: "sum_list v = m" and ne: "v \<noteq> p"
    and ag: "\<forall>k<n. p ! k \<noteq> 0 \<longrightarrow> v ! k = p ! k"
    using assms unfolding agrees_fixed_def by auto
  from ne len assms obtain k where k: "k < n" "v ! k \<noteq> p ! k"
    by (auto simp: list_eq_iff_nth_eq)
  with ag have "p ! k = 0" by metis
  with k have "\<exists>k. 0 \<le> k \<and> k < n \<and> p ! k = 0 \<and> v ! k \<noteq> 0" by (intro exI[of _ k]) simp
  then show "v \<in> compl_i n m p 0" using len sm ag unfolding compl_i_def by simp
qed

lemma agrees_fixed_zero: "agrees_fixed (replicate n 0) v"
  by (simp add: agrees_fixed_def)

lemma agrees_fixed_Nil: "agrees_fixed [] v"
  by (simp add: agrees_fixed_def)

subsection \<open>The output of the generator\<close>

text \<open>
  Claim C4, as amended. For every order \<open>m\<close> and length \<open>n\<close>, with \<open>p\<close> empty or of length
  \<open>n\<close>, with \<open>m\<close> and the sum of \<open>p\<close> below \<open>2^31 - 1\<close> (no 32-bit sum overflows), and an
  output vector \<open>c\<close> without repetitions, \<open>ipartition\<close> returns, keeps \<open>c\<close>
  free of repetitions, and adds exactly the vectors of length \<open>n\<close> that sum to \<open>m\<close>, keep
  the fixed coordinates of \<open>p\<close> and differ from the vector the search starts from. The
  starting vector itself is never output: for \<open>m = 0\<close> the all-zero vector is the only
  vector of sum \<open>0\<close>, so nothing is added.
\<close>

theorem ipartition_complete:
  assumes "p = [] \<or> length p = n" and "distinct c"
    and "m < 2147483647" and "sum_list p < 2147483647"
  shows "\<exists>c'. ipartition m n c p = Some c' \<and> distinct c' \<and>
           set c' = set c \<union> {v. length v = n \<and> sum_list v = m \<and> agrees_fixed p v \<and> v \<noteq> init_r n p}"
proof -
  let ?r = "init_r n p"
  let ?T = "{v. length v = n \<and> sum_list v = m \<and> agrees_fixed p v \<and> v \<noteq> ?r}"
  have len: "length ?r = n" using assms(1) by (auto simp: init_r_def)
  have "ipart_i m n p 0 c = ipart_i m n ?r 0 c"
  proof (cases "p = []")
    case True
    have "init_r n p = replicate n 0" using True by (simp add: init_r_def)
    moreover have "ipart_i m n [] 0 c = ipart_i m n (replicate n 0) 0 c" by (rule ipart_i_Nil)
    ultimately show ?thesis using True by (simp only:)
  next
    case False
    then show ?thesis by (simp only: init_r_def if_False)
  qed
  moreover have "ipartition m n c p = Some (ipart_i m n p 0 c)"
    using assms(1,3,4) by (auto simp: ipartition_def)
  ultimately have run: "ipartition m n c p = Some (ipart_i m n ?r 0 c)" by (simp only:)
  have snd: "set (ipart_i m n ?r 0 c) = set c \<union> compl_i n m ?r 0"
    and dst: "distinct (ipart_i m n ?r 0 c)"
    using ipart_sound(1)[of ?r n m 0 c] len assms(2) by blast+
  have ag: "agrees_fixed ?r v = agrees_fixed p v" for v
    by (simp add: init_r_def agrees_fixed_zero agrees_fixed_Nil)
  have "compl_i n m ?r 0 = {v. length v = n \<and> sum_list v = m \<and> agrees_fixed ?r v \<and> v \<noteq> ?r}"
    using len by (rule compl_i_0)
  then have "compl_i n m ?r 0 = ?T" by (simp only: ag)
  with snd have "set (ipart_i m n ?r 0 c) = set c \<union> ?T" by (simp only:)
  with run dst show ?thesis by blast
qed

theorem ipartition_complete_witness:
  "ipartition 2 2 [] [] = Some [[1, 1], [2, 0], [0, 2]] \<and>
   (\<exists>c'. ipartition 2 2 [] [] = Some c' \<and> distinct c' \<and>
      set c' = set [] \<union> {v. length v = 2 \<and> sum_list v = 2 \<and> agrees_fixed [] v \<and> v \<noteq> init_r 2 []})"
proof -
  have "ipart_i 2 2 [] 0 [] = [[1, 1], [2, 0], [0, 2]]" by code_simp
  then have "ipartition 2 2 [] [] = Some [[1, 1], [2, 0], [0, 2]]"
    by (simp add: ipartition_def)
  moreover have "[] = [] \<or> length ([]::nat list) = 2" by simp
  moreover have "distinct ([]::nat list list)" by simp
  moreover have "(2::nat) < 2147483647" "sum_list ([]::nat list) < 2147483647" by simp_all
  ultimately show ?thesis using ipartition_complete[of "[]" 2 "[]" 2] by blast
qed

text \<open>
  Claim C4 as stated fails at order \<open>0\<close>: the inner loop runs \<open>m = 0\<close> times, nothing is
  pushed, and the all-zero vector is not in the output.
\<close>

theorem ipartition_order_zero_counterexample:
  "ipartition 0 1 [] [] = Some [] \<and> [0] \<notin> set (the (ipartition 0 1 [] []))"
proof -
  have "ipart_i 0 1 [] 0 [] = []" by code_simp
  then show ?thesis by (simp add: ipartition_def)
qed

section \<open>Variable-arrangement selector\<close>

text \<open>
  \<^verbatim>\<open>vars_arrangements(J, arrs)\<close> enumerates the bit masks \<open>k\<close> with \<open>1 \<le> k < 2^n\<close> that have
  exactly \<open>m\<close> bits set, turns each into an arrangement of the column indices and keeps
  the arrangement when the determinant of the chosen columns is not zero. The machine
  integers are modelled as \<open>nat\<close>: \<open>n \<le> 32\<close> is asserted by the source, so \<open>2^n\<close> fits the
  64-bit \<^verbatim>\<open>ulong\<close> and no operation wraps. \<^verbatim>\<open>bitset<32>(k).count()\<close> is \<open>popcount32\<close>: the
  number of one bits among the low 32 bits of \<open>k\<close>. The determinant is the kernel's and
  is a parameter; \<^verbatim>\<open>mtran\<close> is the transposition of a rectangular matrix. The failed
  \<^verbatim>\<open>assert\<close> and \<^verbatim>\<open>J.front()\<close> of an empty matrix are the result \<open>None\<close>.
\<close>

unbundle bit_operations_syntax

fun bitcount :: "nat \<Rightarrow> nat" where
  "bitcount k = (if k = 0 then 0 else k mod 2 + bitcount (k div 2))"

declare bitcount.simps [simp del]

definition popcount32 :: "nat \<Rightarrow> nat" where
  "popcount32 k = bitcount (k mod 2 ^ 32)"

text \<open>The vector \<^verbatim>\<open>sets\<close> has \<open>comb(n, m)\<close> entries, filled from index \<open>0\<close> upwards.\<close>

definition collect_sets :: "nat \<Rightarrow> nat \<Rightarrow> nat list" where
  "collect_sets n m =
     fst (fold (\<lambda>k (sets, i). if popcount32 k = m then (sets[i := k], Suc i) else (sets, i))
            [1..<2 ^ n] (replicate (n choose m) 0, 0))"

text \<open>The inner loop runs \<open>i = n-1, ..., 0\<close> with \<open>N = 2^i\<close>: a selected index is erased from its
  position and pushed to the back.\<close>

definition arrange :: "nat \<Rightarrow> nat \<Rightarrow> nat list" where
  "arrange n k =
     fold (\<lambda>i arr. if k AND 2 ^ i \<noteq> 0 then (take i arr @ drop (Suc i) arr) @ [i] else arr)
       (rev [0..<n]) [0..<n]"

definition mtran :: "'a list list \<Rightarrow> 'a list list" where
  "mtran J = map (\<lambda>c. map (\<lambda>row. row ! c) J) [0..<length (hd J)]"

definition select_arrangements ::
  "('a list list \<Rightarrow> 'a::zero) \<Rightarrow> 'a list list \<Rightarrow> nat \<Rightarrow> nat \<Rightarrow> nat list \<Rightarrow> nat list list \<Rightarrow> nat list list" where
  "select_arrangements det tJ n m sets arrs =
     fold (\<lambda>k arrs.
             (let arr = arrange n k;
                  S = map (\<lambda>c. tJ ! c) (drop (n - m) arr)
              in if det S \<noteq> 0 then arrs @ [arr] else arrs))
       sets arrs"

definition vars_arrangements ::
  "('a list list \<Rightarrow> 'a::zero) \<Rightarrow> 'a list list \<Rightarrow> nat list list \<Rightarrow> nat list list option" where
  "vars_arrangements det J arrs =
     (case J of
        [] \<Rightarrow> None
      | row # _ \<Rightarrow>
          (let m = length J; n = length row in
           if \<not> (n \<le> 32 \<and> m < n) then None
           else Some (select_arrangements det (mtran J) n m (collect_sets n m) arrs)))"

subsection \<open>The masks collected are those with \<open>m\<close> bits\<close>

lemma collect_fold:
  "length (filter P ks) \<le> length rest \<Longrightarrow> length pre = i \<Longrightarrow>
   fold (\<lambda>k (sets, i). if P k then (sets[i := k], Suc i) else (sets, i)) ks (pre @ rest, i) =
     (pre @ filter P ks @ drop (length (filter P ks)) rest, i + length (filter P ks))"
proof (induction ks arbitrary: pre rest i)
  case Nil
  then show ?case by simp
next
  case (Cons k ks)
  show ?case
  proof (cases "P k")
    case False
    then show ?thesis using Cons.IH[of rest pre i] Cons.prems by simp
  next
    case True
    then obtain x rest' where rest: "rest = x # rest'"
      using Cons.prems(1) by (cases rest) auto
    have upd: "(pre @ rest)[i := k] = (pre @ [k]) @ rest'"
      using rest Cons.prems(2) by (simp add: list_update_append)
    have "length (filter P ks) \<le> length rest'" using Cons.prems(1) True rest by simp
    moreover have "length (pre @ [k]) = Suc i" using Cons.prems(2) by simp
    ultimately have "fold (\<lambda>k (sets, i). if P k then (sets[i := k], Suc i) else (sets, i)) ks
            ((pre @ [k]) @ rest', Suc i) =
          ((pre @ [k]) @ filter P ks @ drop (length (filter P ks)) rest', Suc i + length (filter P ks))"
      by (rule Cons.IH)
    then show ?thesis using True upd rest by simp
  qed
qed

lemma bitcount_0: "bitcount 0 = 0"
  by (simp add: bitcount.simps)

lemma bitcount_double: "bitcount (2 * k) = bitcount k"
  by (cases "k = 0") (simp_all add: bitcount.simps[of "2 * k"] bitcount_0)

lemma bitcount_double_Suc: "bitcount (Suc (2 * k)) = Suc (bitcount k)"
  by (simp add: bitcount.simps[of "Suc (2 * k)"])

lemma bits_double: "{i. bit (2 * k :: nat) i} = Suc ` {i. bit k i}"
proof (intro set_eqI iffI)
  fix i assume "i \<in> {i. bit (2 * k) i}"
  then have b: "bit (2 * k) i" by simp
  then obtain j where "i = Suc j" by (cases i) (auto simp: bit_0)
  with b show "i \<in> Suc ` {i. bit k i}" by (auto simp: bit_Suc)
next
  fix i assume "i \<in> Suc ` {i. bit k i}"
  then show "i \<in> {i. bit (2 * k) i}" by (auto simp: bit_Suc)
qed

lemma bits_double_Suc: "{i. bit (Suc (2 * k)) i} = insert 0 (Suc ` {i. bit k i})"
proof (intro set_eqI iffI)
  fix i assume "i \<in> {i. bit (Suc (2 * k)) i}"
  then have b: "bit (Suc (2 * k)) i" by simp
  show "i \<in> insert 0 (Suc ` {i. bit k i})"
  proof (cases i)
    case 0
    then show ?thesis by simp
  next
    case (Suc j)
    with b have "bit k j" by (simp add: bit_Suc)
    with Suc show ?thesis by simp
  qed
next
  fix i assume "i \<in> insert 0 (Suc ` {i. bit k i})"
  then show "i \<in> {i. bit (Suc (2 * k)) i}" by (auto simp: bit_Suc bit_0)
qed

lemma bits_below: "k < 2 ^ n \<Longrightarrow> bit (k::nat) i \<Longrightarrow> i < n"
proof -
  assume k: "k < 2 ^ n" and b: "bit k i"
  have "take_bit n k = k" using k by (simp add: take_bit_nat_eq_self_iff)
  then have "bit (take_bit n k) i" using b by simp
  then show "i < n" by (simp add: bit_take_bit_iff)
qed

lemma finite_bits: "finite {i. bit (k::nat) i}"
proof -
  have "k < 2 ^ k" by simp
  then have "{i. bit k i} \<subseteq> {..<k}" using bits_below by blast
  then show ?thesis by (rule finite_subset) simp
qed

lemma bitcount_card: "bitcount k = card {i. bit k i}"
proof (induction k rule: nat_bit_induct)
  case zero
  then show ?case by (simp add: bitcount_0)
next
  case (even k)
  have "card (Suc ` {i. bit k i}) = card {i. bit k i}" by (simp add: card_image)
  then show ?case using even by (simp add: bitcount_double bits_double)
next
  case (odd k)
  have "card (Suc ` {i. bit k i}) = card {i. bit k i}" by (simp add: card_image)
  moreover have "finite (Suc ` {i. bit k i})" using finite_bits by simp
  moreover have "0 \<notin> Suc ` {i. bit k i}" by auto
  ultimately have "card (insert 0 (Suc ` {i. bit k i})) = Suc (card {i. bit k i})" by simp
  then show ?case using odd by (simp add: bitcount_double_Suc bits_double_Suc)
qed

subsection \<open>Masks and column subsets\<close>

text \<open>\<open>mask_of n C\<close> is the mask whose one bits are the members of \<open>C\<close> below \<open>n\<close>.\<close>

definition mask_of :: "nat \<Rightarrow> nat set \<Rightarrow> nat" where
  "mask_of n C = horner_sum of_bool 2 (map (\<lambda>i. i \<in> C) [0..<n])"

lemma bit_mask_of: "bit (mask_of n C) i \<longleftrightarrow> i < n \<and> i \<in> C"
  by (auto simp: mask_of_def bit_horner_sum_bit_iff)

lemma mask_of_less: "mask_of n C < 2 ^ n"
proof -
  have "take_bit n (mask_of n C) = mask_of n C"
    by (rule bit_eqI) (auto simp: bit_take_bit_iff bit_mask_of)
  then show ?thesis by (simp add: take_bit_nat_eq_self_iff)
qed

lemma bits_mask_of: "C \<subseteq> {0..<n} \<Longrightarrow> {i. bit (mask_of n C) i} = C"
  by (auto simp: bit_mask_of)

lemma mask_of_bits: "k < 2 ^ n \<Longrightarrow> mask_of n {i. bit k i} = k"
  by (rule bit_eqI) (auto simp: bit_mask_of dest: bits_below)

lemma card_masks: "card {k. k < 2 ^ n \<and> bitcount k = m} = n choose m"
proof -
  have "bij_betw (\<lambda>k. {i. bit k i}) {k. k < 2 ^ n \<and> bitcount k = m}
          {C. C \<subseteq> {0..<n} \<and> card C = m}"
  proof (rule bij_betw_byWitness[where f' = "mask_of n"])
    show "\<forall>k\<in>{k. k < 2 ^ n \<and> bitcount k = m}. mask_of n {i. bit k i} = k"
      by (simp add: mask_of_bits)
    show "\<forall>C\<in>{C. C \<subseteq> {0..<n} \<and> card C = m}. {i. bit (mask_of n C) i} = C"
      by (simp add: bits_mask_of)
    show "(\<lambda>k. {i. bit k i}) ` {k. k < 2 ^ n \<and> bitcount k = m} \<subseteq> {C. C \<subseteq> {0..<n} \<and> card C = m}"
      using bits_below by (auto simp: bitcount_card)
    show "mask_of n ` {C. C \<subseteq> {0..<n} \<and> card C = m} \<subseteq> {k. k < 2 ^ n \<and> bitcount k = m}"
      by (auto simp: mask_of_less bitcount_card bits_mask_of)
  qed
  then have "card {k. k < 2 ^ n \<and> bitcount k = m} = card {C. C \<subseteq> {0..<n} \<and> card C = m}"
    by (rule bij_betw_same_card)
  also have "\<dots> = card {0..<n} choose m" by (rule n_subsets) simp
  finally show ?thesis by simp
qed

lemma popcount32_small: "k < 2 ^ n \<Longrightarrow> n \<le> 32 \<Longrightarrow> popcount32 k = bitcount k"
proof -
  assume k: "k < 2 ^ n" and n: "n \<le> 32"
  have "(2::nat) ^ n \<le> 2 ^ 32" using n by (rule power_increasing) simp
  with k have "k < 2 ^ 32" by simp
  then show ?thesis by (simp add: popcount32_def)
qed

lemma filter_popcount:
  assumes "n \<le> 32"
  shows "filter (\<lambda>k. popcount32 k = m) [1..<2 ^ n] = filter (\<lambda>k. bitcount k = m) [1..<2 ^ n]"
  by (rule filter_cong) (auto simp: popcount32_small[OF _ assms])

lemma length_masks:
  assumes "n \<le> 32" "1 \<le> m"
  shows "length (filter (\<lambda>k. popcount32 k = m) [1..<2 ^ n]) = n choose m"
proof -
  have "length (filter (\<lambda>k. bitcount k = m) [1..<2 ^ n]) =
        card ({k. bitcount k = m} \<inter> set [1..<2 ^ n])"
    by (rule distinct_length_filter) simp
  also have "{k. bitcount k = m} \<inter> set [1..<2 ^ n] = {k. k < 2 ^ n \<and> bitcount k = m}"
  proof -
    have "1 \<le> k" if "bitcount k = m" for k
    proof (rule ccontr)
      assume "\<not> 1 \<le> k"
      then have "k = 0" by simp
      then have "bitcount k = 0" by (simp add: bitcount_0)
      with that assms(2) show False by simp
    qed
    then show ?thesis by auto
  qed
  finally have "length (filter (\<lambda>k. bitcount k = m) [1..<2 ^ n]) = n choose m"
    by (simp only: card_masks)
  then show ?thesis by (simp only: filter_popcount[OF assms(1)])
qed

lemma collect_sets_filter:
  assumes "n \<le> 32" "1 \<le> m"
  shows "collect_sets n m = filter (\<lambda>k. bitcount k = m) [1..<2 ^ n]"
proof -
  let ?P = "\<lambda>k. popcount32 k = m"
  let ?ks = "[1..<2 ^ n]"
  have len: "length (filter ?P ?ks) = n choose m" using assms by (rule length_masks)
  have "fold (\<lambda>k (sets, i). if ?P k then (sets[i := k], Suc i) else (sets, i)) ?ks
          ([] @ replicate (n choose m) 0, 0) =
        ([] @ filter ?P ?ks @ drop (length (filter ?P ?ks)) (replicate (n choose m) 0),
         0 + length (filter ?P ?ks))"
  proof (rule collect_fold)
    show "length (filter ?P ?ks) \<le> length (replicate (n choose m) (0::nat))"
      using len by simp
    show "length ([]::nat list) = 0" by simp
  qed
  then have "collect_sets n m = filter ?P ?ks"
    unfolding collect_sets_def using len by simp
  then show ?thesis by (simp only: filter_popcount[OF assms(1)])
qed

subsection \<open>The arrangement of a mask\<close>

text \<open>
  \<open>arr_of n C\<close> lists the indices outside \<open>C\<close> in increasing order and then those of \<open>C\<close>
  in decreasing order; \<open>sub_block J n C\<close> is the block the source hands to the determinant:
  the columns of \<open>J\<close> in \<open>C\<close>, as rows, in decreasing column order.
\<close>

definition arr_of :: "nat \<Rightarrow> nat set \<Rightarrow> nat list" where
  "arr_of n C = filter (\<lambda>i. i \<notin> C) [0..<n] @ rev (filter (\<lambda>i. i \<in> C) [0..<n])"

definition sub_block :: "'a list list \<Rightarrow> nat \<Rightarrow> nat set \<Rightarrow> 'a list list" where
  "sub_block J n C = map (\<lambda>c. map (\<lambda>row. row ! c) J) (rev (filter (\<lambda>i. i \<in> C) [0..<n]))"

lemma arrange_step:
  assumes "j < n"
  shows "(if (k::nat) AND 2 ^ j \<noteq> 0
          then (take j ([0..<Suc j] @ filter (\<lambda>i. \<not> bit k i) [Suc j..<n] @ rev (filter (bit k) [Suc j..<n])) @
                drop (Suc j) ([0..<Suc j] @ filter (\<lambda>i. \<not> bit k i) [Suc j..<n] @ rev (filter (bit k) [Suc j..<n]))) @ [j]
          else [0..<Suc j] @ filter (\<lambda>i. \<not> bit k i) [Suc j..<n] @ rev (filter (bit k) [Suc j..<n])) =
         [0..<j] @ filter (\<lambda>i. \<not> bit k i) [j..<n] @ rev (filter (bit k) [j..<n])"
proof -
  have upt: "[j..<n] = j # [Suc j..<n]" using assms by (simp add: upt_conv_Cons)
  have b: "k AND 2 ^ j \<noteq> 0 \<longleftrightarrow> bit k j" by (simp add: and_exp_eq_0_iff_not_bit)
  show ?thesis
  proof (cases "bit k j")
    case True
    then show ?thesis by (simp only: b upt) simp
  next
    case False
    then show ?thesis by (simp only: b upt) simp
  qed
qed

lemma arrange_fold:
  "j \<le> n \<Longrightarrow>
   fold (\<lambda>i arr. if (k::nat) AND 2 ^ i \<noteq> 0 then (take i arr @ drop (Suc i) arr) @ [i] else arr)
     (rev [0..<j]) ([0..<j] @ filter (\<lambda>i. \<not> bit k i) [j..<n] @ rev (filter (bit k) [j..<n])) =
   filter (\<lambda>i. \<not> bit k i) [0..<n] @ rev (filter (bit k) [0..<n])"
proof (induction j)
  case 0
  then show ?case by simp
next
  case (Suc j)
  then have lt: "j < n" and le: "j \<le> n" by auto
  let ?f = "\<lambda>i arr. if k AND 2 ^ i \<noteq> 0 then (take i arr @ drop (Suc i) arr) @ [i] else arr"
  let ?X = "[0..<Suc j] @ filter (\<lambda>i. \<not> bit k i) [Suc j..<n] @ rev (filter (bit k) [Suc j..<n])"
  have "fold ?f (rev [0..<Suc j]) ?X = fold ?f (rev [0..<j]) (?f j ?X)" by simp
  also have "?f j ?X = [0..<j] @ filter (\<lambda>i. \<not> bit k i) [j..<n] @ rev (filter (bit k) [j..<n])"
    using lt by (rule arrange_step)
  finally show ?case using Suc.IH[OF le] by (simp only:)
qed

lemma arrange_eq: "arrange n k = filter (\<lambda>i. \<not> bit k i) [0..<n] @ rev (filter (bit k) [0..<n])"
  using arrange_fold[of n n k] by (simp add: arrange_def)

lemma arrange_arr_of: "arrange n k = arr_of n {i. bit k i}"
  by (simp add: arrange_eq arr_of_def)

lemma select_arrangements_eq:
  "select_arrangements d tJ n m ks arrs =
     arrs @ map (arrange n) (filter (\<lambda>k. d (map (\<lambda>c. tJ ! c) (drop (n - m) (arrange n k))) \<noteq> 0) ks)"
  unfolding select_arrangements_def
  by (induction ks arbitrary: arrs) (simp_all add: Let_def)

lemma length_chosen: "C \<subseteq> {0..<n} \<Longrightarrow> length (filter (\<lambda>i. i \<in> C) [0..<n]) = card C"
proof -
  assume C: "C \<subseteq> {0..<n}"
  have "length (filter (\<lambda>i. i \<in> C) [0..<n]) = card ({i. i \<in> C} \<inter> set [0..<n])"
    by (rule distinct_length_filter) simp
  also have "{i. i \<in> C} \<inter> set [0..<n] = C" using C by auto
  finally show ?thesis .
qed

lemma length_unchosen: "C \<subseteq> {0..<n} \<Longrightarrow> length (filter (\<lambda>i. i \<notin> C) [0..<n]) = n - card C"
  using sum_length_filter_compl[of "\<lambda>i. i \<in> C" "[0..<n]"] length_chosen[of C n] by simp

lemma arr_of_take:
  "C \<subseteq> {0..<n} \<Longrightarrow> card C = m \<Longrightarrow> take (n - m) (arr_of n C) = filter (\<lambda>i. i \<notin> C) [0..<n]"
  by (simp add: arr_of_def length_unchosen)

lemma arr_of_drop:
  "C \<subseteq> {0..<n} \<Longrightarrow> card C = m \<Longrightarrow> drop (n - m) (arr_of n C) = rev (filter (\<lambda>i. i \<in> C) [0..<n])"
  by (simp add: arr_of_def length_unchosen)

lemma arr_of_drop_set:
  "C \<subseteq> {0..<n} \<Longrightarrow> card C = m \<Longrightarrow> set (drop (n - m) (arr_of n C)) = C"
  by (auto simp: arr_of_drop)

lemma arr_of_perm: "distinct (arr_of n C) \<and> set (arr_of n C) = {0..<n}"
  by (auto simp: arr_of_def)

lemma arr_of_inj: "inj_on (arr_of n) {C. C \<subseteq> {0..<n} \<and> card C = m}"
proof (rule inj_onI)
  fix C D assume C: "C \<in> {C. C \<subseteq> {0..<n} \<and> card C = m}"
    and D: "D \<in> {C. C \<subseteq> {0..<n} \<and> card C = m}" and eq: "arr_of n C = arr_of n D"
  have "C = set (drop (n - m) (arr_of n C))" using C by (simp add: arr_of_drop_set)
  also have "\<dots> = set (drop (n - m) (arr_of n D))" by (simp only: eq)
  also have "\<dots> = D" using D by (simp add: arr_of_drop_set)
  finally show "C = D" .
qed

lemma bits_subset: "k < 2 ^ n \<Longrightarrow> {i. bit (k::nat) i} \<subseteq> {0..<n}"
  using bits_below by auto

lemma block_of_arrange:
  assumes "k < 2 ^ n" "bitcount k = m"
  shows "map (\<lambda>c. map (\<lambda>c. map (\<lambda>row. row ! c) J) [0..<n] ! c) (drop (n - m) (arrange n k)) =
         sub_block J n {i. bit k i}"
proof -
  let ?C = "{i. bit k i}"
  have C: "?C \<subseteq> {0..<n}" using assms(1) by (rule bits_subset)
  have card: "card ?C = m" using assms(2) by (simp add: bitcount_card)
  have d: "drop (n - m) (arrange n k) = rev (filter (\<lambda>i. i \<in> ?C) [0..<n])"
    using arr_of_drop[OF C card] by (simp only: arrange_arr_of)
  have "map (\<lambda>c. map (\<lambda>c. map (\<lambda>row. row ! c) J) [0..<n] ! c) xs = map (\<lambda>c. map (\<lambda>row. row ! c) J) xs"
    if "set xs \<subseteq> {0..<n}" for xs
    using that by (induction xs) auto
  then show ?thesis unfolding sub_block_def d by simp
qed

subsection \<open>The arrangements returned\<close>

text \<open>
  Claim C6. For every Jacobian \<open>J\<close> with \<open>m\<close> rows and \<open>n\<close> columns, \<open>m < n \<le> 32\<close>,
  \<open>vars_arrangements\<close> returns, without repetition, exactly the arrangements \<open>arr_of n C\<close>
  of the column subsets \<open>C\<close> of size \<open>m\<close> whose block has a non-zero determinant; different
  subsets have different arrangements; and every such arrangement is a permutation of
  \<open>0, ..., n-1\<close> whose last \<open>m\<close> positions hold the members of \<open>C\<close> and whose first \<open>n - m\<close>
  positions hold the other indices in increasing order.
\<close>

theorem vars_arrangements_subsets:
  assumes "J \<noteq> []" and "n = length (hd J)" and "m = length J" and "m < n" and "n \<le> 32"
  shows "\<exists>res. vars_arrangements det J [] = Some res \<and> distinct res \<and>
           set res = arr_of n ` {C. C \<subseteq> {0..<n} \<and> card C = m \<and> det (sub_block J n C) \<noteq> 0} \<and>
           inj_on (arr_of n) {C. C \<subseteq> {0..<n} \<and> card C = m} \<and>
           (\<forall>C. C \<subseteq> {0..<n} \<and> card C = m \<longrightarrow>
                distinct (arr_of n C) \<and> set (arr_of n C) = {0..<n} \<and>
                set (drop (n - m) (arr_of n C)) = C \<and>
                take (n - m) (arr_of n C) = filter (\<lambda>i. i \<notin> C) [0..<n])"
proof -
  let ?ks = "filter (\<lambda>k. bitcount k = m) [1..<2 ^ n]"
  let ?S = "\<lambda>arr. map (\<lambda>c. mtran J ! c) (drop (n - m) arr)"
  let ?Q = "\<lambda>k. det (?S (arrange n k)) \<noteq> 0"
  let ?res = "map (arrange n) (filter ?Q ?ks)"
  let ?T = "{C. C \<subseteq> {0..<n} \<and> card C = m \<and> det (sub_block J n C) \<noteq> 0}"
  have m1: "1 \<le> m" using assms(1,3) by (cases J) auto
  obtain row rest where J: "J = row # rest" using assms(1) by (cases J) auto
  have n: "n = length row" using assms(2) J by simp
  have sets: "collect_sets n m = ?ks" using assms(5) m1 by (rule collect_sets_filter)
  have "vars_arrangements det J [] = Some (select_arrangements det (mtran J) n m (collect_sets n m) [])"
    unfolding vars_arrangements_def J list.case
    using assms(3,4,5) n J by (simp add: Let_def)
  then have run: "vars_arrangements det J [] = Some ?res"
    by (simp only: sets select_arrangements_eq append_Nil)
  have tJ: "mtran J = map (\<lambda>c. map (\<lambda>row. row ! c) J) [0..<n]"
    using assms(2) by (simp add: mtran_def)
  have blk: "?S (arrange n k) = sub_block J n {i. bit k i}" if "k \<in> set ?ks" for k
  proof -
    have "k < 2 ^ n" "bitcount k = m" using that by auto
    then show ?thesis unfolding tJ by (rule block_of_arrange)
  qed
  have sub: "{i. bit k i} \<subseteq> {0..<n} \<and> card {i. bit k i} = m" if "k \<in> set ?ks" for k
    using that bits_subset[of k n] by (auto simp: bitcount_card)
  have set_eq: "set ?res = arr_of n ` ?T"
  proof (intro set_eqI iffI)
    fix a assume "a \<in> set ?res"
    then obtain k where k: "k \<in> set ?ks" "?Q k" "a = arrange n k" by auto
    have "det (sub_block J n {i. bit k i}) \<noteq> 0" using k(2) unfolding blk[OF k(1)] .
    then have "{i. bit k i} \<in> ?T" using sub[OF k(1)] by simp
    moreover have "a = arr_of n {i. bit k i}" using k(3) by (simp only: arrange_arr_of)
    ultimately show "a \<in> arr_of n ` ?T" by (rule rev_image_eqI)
  next
    fix a assume "a \<in> arr_of n ` ?T"
    then obtain C where C: "C \<subseteq> {0..<n}" "card C = m" "det (sub_block J n C) \<noteq> 0" "a = arr_of n C"
      by auto
    let ?k = "mask_of n C"
    have bits: "{i. bit ?k i} = C" using C(1) by (rule bits_mask_of)
    have lt: "?k < 2 ^ n" by (rule mask_of_less)
    have bc: "bitcount ?k = m" using bits C(2) by (simp add: bitcount_card)
    have "?k \<noteq> 0"
    proof
      assume "?k = 0"
      then have "bitcount ?k = 0" by (simp only: bitcount_0)
      with bc m1 show False by simp
    qed
    then have "1 \<le> ?k" by simp
    then have mem: "?k \<in> set ?ks" using lt bc by simp
    have "?S (arrange n ?k) = sub_block J n C" using blk[OF mem] by (simp only: bits)
    then have "?Q ?k" using C(3) by metis
    then have "?k \<in> set (filter ?Q ?ks)" using mem by simp
    moreover have "a = arrange n ?k" using C(4) by (simp only: arrange_arr_of bits)
    ultimately show "a \<in> set ?res" by simp
  qed
  have "inj_on (arrange n) (set (filter ?Q ?ks))"
  proof (rule inj_onI)
    fix k k' assume k: "k \<in> set (filter ?Q ?ks)" and k': "k' \<in> set (filter ?Q ?ks)"
      and eq: "arrange n k = arrange n k'"
    have a: "{i. bit k i} \<in> {C. C \<subseteq> {0..<n} \<and> card C = m}" using sub[of k] k by simp
    have b: "{i. bit k' i} \<in> {C. C \<subseteq> {0..<n} \<and> card C = m}" using sub[of k'] k' by simp
    have e: "arr_of n {i. bit k i} = arr_of n {i. bit k' i}"
      using eq by (simp only: arrange_arr_of)
    have "{i. bit k i} = {i. bit k' i}"
      using arr_of_inj[of n m] e a b by (rule inj_onD)
    then have "bit k i = bit k' i" for i by blast
    then show "k = k'" by (rule bit_eqI)
  qed
  then have dist: "distinct ?res" by (simp add: distinct_map)
  have props: "\<forall>C. C \<subseteq> {0..<n} \<and> card C = m \<longrightarrow>
                distinct (arr_of n C) \<and> set (arr_of n C) = {0..<n} \<and>
                set (drop (n - m) (arr_of n C)) = C \<and>
                take (n - m) (arr_of n C) = filter (\<lambda>i. i \<notin> C) [0..<n]"
    using arr_of_perm arr_of_drop_set arr_of_take by blast
  show ?thesis
    by (intro exI[of _ ?res] conjI run dist set_eq arr_of_inj props)
qed

text \<open>The witness: one constraint in three variables, the determinant of a 1-by-1 block
  being its entry. Column 1 has entry \<open>0\<close> and is not selected.\<close>

lemma sets_3_1: "collect_sets 3 1 = [1, 2, 4]"
proof -
  have "collect_sets 3 1 = filter (\<lambda>k. bitcount k = 1) [1..<2 ^ 3]"
    by (rule collect_sets_filter) simp_all
  also have "[1..<2 ^ 3] = [1, 2, 3, 4, 5, 6, 7::nat]"
    by (simp add: upt_rec)
  finally show ?thesis by (simp add: bitcount.simps)
qed

lemma upt3: "[0..<3] = [0, 1, 2]"
  by (simp add: upt_rec)

lemma arr_1: "arrange 3 1 = [1, 2, 0]" and arr_2: "arrange 3 2 = [0, 2, 1]" and arr_4: "arrange 3 4 = [0, 1, 2]"
  by (simp_all add: arrange_eq upt3 bit_iff_odd)

theorem vars_arrangements_subsets_witness:
  "vars_arrangements (\<lambda>S. hd (hd S)) [[1, 0, 2::int]] [] = Some [[1, 2, 0], [0, 1, 2]] \<and>
   (\<exists>res. vars_arrangements (\<lambda>S. hd (hd S)) [[1, 0, 2::int]] [] = Some res \<and> distinct res \<and>
      set res = arr_of 3 ` {C. C \<subseteq> {0..<3} \<and> card C = 1 \<and> hd (hd (sub_block [[1, 0, 2::int]] 3 C)) \<noteq> 0})"
proof -
  have "vars_arrangements (\<lambda>S. hd (hd S)) [[1, 0, 2::int]] [] =
        Some (select_arrangements (\<lambda>S. hd (hd S)) (mtran [[1, 0, 2::int]]) 3 1 (collect_sets 3 1) [])"
    by (simp add: vars_arrangements_def numeral_3_eq_3)
  also have "mtran [[1, 0, 2::int]] = [[1], [0], [2]]"
    by (simp add: mtran_def upt3[unfolded numeral_3_eq_3])
  also have "select_arrangements (\<lambda>S. hd (hd S)) [[1], [0], [2::int]] 3 1 (collect_sets 3 1) [] =
        [[1, 2, 0], [0, 1, 2]]"
    by (simp add: select_arrangements_eq sets_3_1[unfolded One_nat_def] arr_1[unfolded One_nat_def]
        arr_2 arr_4)
  finally have "vars_arrangements (\<lambda>S. hd (hd S)) [[1, 0, 2::int]] [] = Some [[1, 2, 0], [0, 1, 2]]" .
  moreover have "\<exists>res. vars_arrangements (\<lambda>S. hd (hd S)) [[1, 0, 2::int]] [] = Some res \<and> distinct res \<and>
      set res = arr_of 3 ` {C. C \<subseteq> {0..<3} \<and> card C = 1 \<and> hd (hd (sub_block [[1, 0, 2::int]] 3 C)) \<noteq> 0}"
  proof -
    have hyp: "[[1, 0, 2::int]] \<noteq> []" "3 = length (hd [[1, 0, 2::int]])" "1 = length [[1, 0, 2::int]]"
      "(1::nat) < 3" "(3::nat) \<le> 32" by simp_all
    from vars_arrangements_subsets[OF hyp, of "\<lambda>S. hd (hd S)"]
    obtain res where "vars_arrangements (\<lambda>S. hd (hd S)) [[1, 0, 2::int]] [] = Some res"
      "distinct res"
      "set res = arr_of 3 ` {C. C \<subseteq> {0..<3} \<and> card C = 1 \<and> hd (hd (sub_block [[1, 0, 2::int]] 3 C)) \<noteq> 0}"
      by blast
    then show ?thesis by blast
  qed
  ultimately show ?thesis by (rule conjI)
qed

section \<open>Symbolic values and the computer-algebra kernel\<close>

text \<open>
  The functions of \<^verbatim>\<open>optimization.cc\<close> compute on the values of the giac kernel
  (\<^verbatim>\<open>gen\<close>). The datatype \<open>gen\<close> has the shapes that the modelled functions tell apart:
  an integer, an identifier, a function name such as \<^verbatim>\<open>at_point\<close>, a relation
  (\<^verbatim>\<open>at_equal\<close>, \<^verbatim>\<open>at_different\<close>, \<^verbatim>\<open>at_inferieur_egal\<close>, \<^verbatim>\<open>at_superieur_egal\<close>,
  \<^verbatim>\<open>at_inferieur_strict\<close>, \<^verbatim>\<open>at_superieur_strict\<close>) with its two operands, an interval
  \<open>a..b\<close>, any other symbolic expression with its operator name and its argument
  (\<^verbatim>\<open>feuille\<close>), a vector (type \<^verbatim>\<open>_VECT\<close>) that is a list (\<open>Vect\<close>) or a sequence
  (\<open>Seq\<close>, subtype \<^verbatim>\<open>_SEQ__VECT\<close>), \<^verbatim>\<open>undef\<close>, and an error (a string of subtype \<open>-1\<close>)
  of one of the three kinds made by \<^verbatim>\<open>gentypeerr\<close>, \<^verbatim>\<open>gensizeerr\<close> and \<^verbatim>\<open>gendimerr\<close>,
  with its message. Equality of values (\<^verbatim>\<open>==\<close>) is equality of these terms.
\<close>

datatype error_kind = TypeErr | SizeErr | DimErr

datatype relop = REqual | RDifferent | RInfEgal | RSupEgal | RInfStrict | RSupStrict

datatype gen =
    Zint int
  | Idnt string
  | Func string
  | Rel relop gen gen
  | Interval gen gen
  | Symb string gen
  | Vect "gen list"
  | Seq "gen list"
  | Undef
  | Error error_kind string

text \<open>
  \<^verbatim>\<open>make_idnt(name, index)\<close> makes the identifier whose name is a space, \<open>name\<close> and the
  decimal digits of \<open>index\<close> when \<open>index\<close> is not negative (\<open>intern\<close> has its default
  \<^verbatim>\<open>true\<close> at every call).
\<close>

fun show_nat :: "nat \<Rightarrow> string" where
  "show_nat n =
     (if n < 10 then [''0123456789'' ! n]
      else show_nat (n div 10) @ [''0123456789'' ! (n mod 10)])"

declare show_nat.simps [simp del]

definition make_idnt :: "string \<Rightarrow> int \<Rightarrow> gen" where
  "make_idnt name index = Idnt ('' '' @ name @ (if 0 \<le> index then show_nat (nat index) else []))"

text \<open>
  The algebra itself (arithmetic on expressions, differentiation, substitution,
  simplification, equation solving, determinants, sign tests) is done by giac functions
  defined outside \<^verbatim>\<open>optimization.cc\<close>. They are the fields of the record \<open>kernel\<close>, and
  every modelled function takes a kernel \<open>K\<close> as a parameter; the theorems hold for every
  kernel. A field is a function of its arguments only: the assumptions that the source
  records in the evaluation context (\<^verbatim>\<open>giac_assume\<close>, \<^verbatim>\<open>assume_t_in_ab\<close>) are not
  modelled. A field that returns a list stands for a call whose result the source
  dereferences as a vector. \<open>solve2\<close> stands for \<^verbatim>\<open>solve2\<close> of the source, which rewrites
  the system and hands it to \<^verbatim>\<open>_solve\<close>; \<open>ipd_gradient\<close>, \<open>ipd_hessian\<close> and
  \<open>ipd_taylor_term\<close> stand for the results of the methods \<^verbatim>\<open>gradient\<close>, \<^verbatim>\<open>hessian\<close> and
  \<^verbatim>\<open>taylor_term\<close> of an \<^verbatim>\<open>ipdiff\<close> object built from an objective, constraints and
  variables, which are symbolic expressions assembled with the kernel's derivatives.
  \<open>sort_gens\<close> puts a list of keys in the order in which a \<^verbatim>\<open>gen_map\<close> is traversed, and
  \<open>zip_equal vars pt\<close> is \<^verbatim>\<open>_zip(at_equal, vars, pt)\<close>. \<open>subst\<close> on a vector or a matrix of
  the source is \<open>subst\<close> on each entry.
\<close>

record kernel =
  add :: "gen \<Rightarrow> gen \<Rightarrow> gen"
  sub :: "gen \<Rightarrow> gen \<Rightarrow> gen"
  mul :: "gen \<Rightarrow> gen \<Rightarrow> gen"
  neg :: "gen \<Rightarrow> gen"
  pow :: "gen \<Rightarrow> nat \<Rightarrow> gen"
  grad :: "gen \<Rightarrow> gen list \<Rightarrow> gen list"
  hessian :: "gen \<Rightarrow> gen list \<Rightarrow> gen list list"
  derive :: "gen \<Rightarrow> gen \<Rightarrow> gen"
  derive_n :: "gen \<Rightarrow> gen \<Rightarrow> nat \<Rightarrow> gen"
  subst1 :: "gen \<Rightarrow> gen \<Rightarrow> gen \<Rightarrow> gen"
  subst :: "gen \<Rightarrow> gen list \<Rightarrow> gen list \<Rightarrow> gen"
  eval_gen :: "gen \<Rightarrow> gen"
  ratnormal :: "gen \<Rightarrow> gen"
  simplify :: "gen \<Rightarrow> gen"
  simplify_vect :: "gen list \<Rightarrow> gen list"
  expand :: "gen \<Rightarrow> gen"
  evalf_mat :: "gen list list \<Rightarrow> gen list list"
  equal2diff :: "gen \<Rightarrow> gen"
  denom :: "gen \<Rightarrow> gen"
  zip_equal :: "gen list \<Rightarrow> gen \<Rightarrow> gen"
  solve2 :: "gen list \<Rightarrow> gen list \<Rightarrow> gen list list"
  fsolve :: "gen list \<Rightarrow> gen list \<Rightarrow> gen list \<Rightarrow> gen list"
  zeros :: "gen \<Rightarrow> gen \<Rightarrow> gen list"
  det :: "gen list list \<Rightarrow> gen"
  rank :: "gen list list \<Rightarrow> nat"
  eigenvals :: "gen list list \<Rightarrow> gen list"
  sign :: "gen \<Rightarrow> gen"
  is_zero :: "gen \<Rightarrow> bool"
  is_exactly_zero :: "gen \<Rightarrow> bool"
  is_strictly_positive :: "gen \<Rightarrow> bool"
  is_positive :: "gen \<Rightarrow> bool"
  is_inf :: "gen \<Rightarrow> bool"
  is_strictly_greater :: "gen \<Rightarrow> gen \<Rightarrow> bool"
  is_constant_wrt :: "gen \<Rightarrow> gen \<Rightarrow> bool"
  ipd_gradient :: "gen \<Rightarrow> gen list \<Rightarrow> gen list \<Rightarrow> gen list"
  ipd_hessian :: "gen \<Rightarrow> gen list \<Rightarrow> gen list \<Rightarrow> gen list list"
  ipd_taylor_term :: "gen \<Rightarrow> gen list \<Rightarrow> gen list \<Rightarrow> gen list \<Rightarrow> nat \<Rightarrow> gen"
  sort_gens :: "gen list \<Rightarrow> gen list"


section \<open>Karush-Kuhn-Tucker candidate solver\<close>

text \<open>
  \<^verbatim>\<open>next_binary_perm(perm, to_end)\<close> adds one to the binary number whose digits are the
  entries of \<open>perm\<close>, the last entry being the lowest digit, and returns \<^verbatim>\<open>false\<close> when the
  number wraps around to zero. The vector is updated in place: the model returns it
  with the result. The source stops at \<open>to_end = size\<close>; the only call from outside has
  \<open>to_end = 0\<close> and each recursive call adds one, so \<open>to_end\<close> never exceeds the size and
  the test \<open>size \<le> to_end\<close> of the model is the test of the source on every call made.
\<close>

function next_binary_perm :: "bool list \<Rightarrow> nat \<Rightarrow> bool \<times> bool list" where
  "next_binary_perm perm to_end =
     (if length perm \<le> to_end then (False, perm)
      else
        (let end = length perm - 1 - to_end;
             perm' = perm[end := \<not> perm ! end]
         in if perm' ! end then (True, perm') else next_binary_perm perm' (to_end + 1)))"
  by pat_completeness auto
termination next_binary_perm
  by (relation "measure (\<lambda>(perm, to_end). length perm - to_end)") auto

declare next_binary_perm.simps [simp del]

text \<open>
  \<^verbatim>\<open>solve_kkt(f, g, h, vars_orig)\<close>, for the objective \<open>f\<close>, the inequality constraints
  \<open>g \<le> 0\<close> and the equality constraints \<open>h = 0\<close>: \<open>kkt_vars\<close> is the vector of unknowns
  (the variables, one multiplier \<open>mu\<close> for each inequality, one multiplier \<open>lambda\<close>
  for each equality), \<open>stationarity\<close> the vector \<open>eqv\<close> of the stationarity equations
  followed by \<open>h\<close>, \<open>reduce_system\<close> the inner loop that runs from the last inequality
  to the first and, for a multiplier forced to zero, substitutes zero for it and erases
  it from the unknowns, and for any other multiplier appends the constraint to the
  equations. \<open>kkt_loop\<close> is the \<^verbatim>\<open>do ... while (next_binary_perm(is_mu_zero))\<close> loop, which
  appends the solutions of each reduced system to \<open>cv\<close> with \<^verbatim>\<open>mergevecteur\<close> (the
  concatenation of two vectors), and \<open>feasibility_loop\<close> the final loop over \<open>cv\<close> from its
  last entry to its first, which cuts each solution down to the \<open>n\<close> coordinates of the
  variables (\<^verbatim>\<open>resize\<close>, which would pad a shorter one with the default value \<open>0\<close>) and
  erases it when some inequality is strictly positive there. The source indexes each
  gradient at \<open>0, ..., n-1\<close> unchecked: \<open>solve_kkt\<close> is \<open>None\<close> when a gradient of the
  kernel has fewer than \<open>n\<close> entries.
\<close>

definition stationarity :: "kernel \<Rightarrow> gen \<Rightarrow> gen list \<Rightarrow> gen list \<Rightarrow> gen list \<Rightarrow> gen list \<Rightarrow> gen list" where
  "stationarity K f g h vars_orig vars =
     (let n = length vars_orig; m = length g; l = length h;
          gr_f = grad K f vars_orig;
          gr_g = map (\<lambda>gi. grad K gi vars_orig) g;
          gr_h = map (\<lambda>hi. grad K hi vars_orig) h
      in map (\<lambda>i.
            foldl (\<lambda>eq j. add K eq (mul K (vars ! (n + m + j)) (gr_h ! j ! i)))
              (foldl (\<lambda>eq j. add K eq (mul K (vars ! (n + j)) (gr_g ! j ! i))) (gr_f ! i) [0..<m])
              [0..<l])
          [0..<n] @ h)"

definition reduce_system ::
  "kernel \<Rightarrow> nat \<Rightarrow> gen list \<Rightarrow> gen list \<Rightarrow> gen list \<Rightarrow> bool list \<Rightarrow> gen list \<times> gen list" where
  "reduce_system K n g eqv vars is_mu_zero =
     fold (\<lambda>i (e, v).
             if is_mu_zero ! i
             then (map (\<lambda>x. subst1 K x (v ! (n + i)) (Zint 0)) e, take (n + i) v @ drop (Suc (n + i)) v)
             else (e @ [g ! i], v))
       (rev [0..<length g]) (eqv, vars)"

definition next_value :: "bool list \<Rightarrow> nat" where
  "next_value perm = foldl (\<lambda>a b. 2 * a + (if b then 1 else 0)) 0 perm"

subsection \<open>The counter runs through all patterns\<close>

lemma next_binary_perm_Cons:
  "to_end \<le> length p \<Longrightarrow>
   next_binary_perm (b # p) to_end =
     (case next_binary_perm p to_end of
        (True, p') \<Rightarrow> (True, b # p')
      | (False, p') \<Rightarrow> (\<not> b, (\<not> b) # p'))"
proof (induction p to_end rule: next_binary_perm.induct)
  case (1 perm to_end)
  show ?case
  proof (cases "length perm \<le> to_end")
    case True
    with "1.prems" have eq: "to_end = length perm" by simp
    have a: "next_binary_perm perm to_end = (False, perm)"
      using True by (simp add: next_binary_perm.simps[of perm to_end])
    have b: "next_binary_perm (False # perm) (Suc (length perm)) = (False, False # perm)"
      by (simp add: next_binary_perm.simps[of "False # perm"])
    have c_true: "next_binary_perm (True # perm) (length perm) = (False, False # perm)"
      by (simp add: next_binary_perm.simps[of "True # perm" "length perm"] b Let_def)
    have c_false: "next_binary_perm (False # perm) (length perm) = (True, True # perm)"
      by (simp add: next_binary_perm.simps[of "False # perm" "length perm"] Let_def)
    show ?thesis
      using a c_true c_false eq by (cases b) simp_all
  next
    case False
    define e where "e = length perm - 1 - to_end"
    define perm' where "perm' = perm[e := \<not> perm ! e]"
    have e: "e < length perm" using False by (simp add: e_def)
    have e': "length (b # perm) - 1 - to_end = Suc e" using False by (simp add: e_def)
    have upd: "(b # perm)[Suc e := \<not> (b # perm) ! Suc e] = b # perm'"
      by (simp add: perm'_def)
    have nth: "(b # perm') ! Suc e = perm' ! e" by simp
    have c1: "\<not> length (b # perm) \<le> to_end" using False by simp
    have lhs: "next_binary_perm (b # perm) to_end =
          (if perm' ! e then (True, b # perm') else next_binary_perm (b # perm') (to_end + 1))"
      apply (subst next_binary_perm.simps)
      apply (simp only: Let_def e' upd nth c1 if_False)
      done
    have e2: "length perm - 1 - to_end = e" by (simp add: e_def)
    have rhs: "next_binary_perm perm to_end =
          (if perm' ! e then (True, perm') else next_binary_perm perm' (to_end + 1))"
      apply (subst next_binary_perm.simps)
      apply (simp only: Let_def e2 perm'_def[symmetric] False if_False)
      done
    show ?thesis
    proof (cases "perm' ! e")
      case True
      then show ?thesis using lhs rhs by simp
    next
      case nf: False
      have ih: "next_binary_perm (b # perm') (to_end + 1) =
          (case next_binary_perm perm' (to_end + 1) of
             (True, p') \<Rightarrow> (True, b # p')
           | (False, p') \<Rightarrow> (\<not> b, (\<not> b) # p'))"
      proof (rule "1.IH"[OF False])
        show "e = length perm - 1 - to_end" by (simp add: e_def)
        show "perm' = perm[e := \<not> perm ! e]" by (simp add: perm'_def)
        show "\<not> perm' ! e" by (rule nf)
        show "to_end + 1 \<le> length perm'" using False by (simp add: perm'_def)
      qed
      show ?thesis using lhs rhs nf ih by simp
    qed
  qed
qed

lemma next_binary_perm_Nil: "next_binary_perm [] 0 = (False, [])"
  by (simp add: next_binary_perm.simps[of "[]" 0])

lemma next_value_foldl:
  "foldl (\<lambda>a b. 2 * a + (if b then 1 else 0)) a p = a * 2 ^ length p + next_value p"
proof (induction p arbitrary: a)
  case Nil
  then show ?case by (simp add: next_value_def)
next
  case (Cons b p)
  show ?case
    using Cons.IH[of "2 * a + (if b then 1 else 0)"] Cons.IH[of "if b then 1 else 0"]
    by (simp add: next_value_def algebra_simps)
qed

lemma next_value_Cons: "next_value (b # p) = (if b then 2 ^ length p else 0) + next_value p"
  using next_value_foldl[of "if b then 1 else 0" p] by (simp add: next_value_def)

lemma next_value_Nil: "next_value [] = 0"
  by (simp add: next_value_def)

lemma next_value_less: "next_value p < 2 ^ length p"
  by (induction p) (simp_all add: next_value_Cons next_value_Nil)

lemma next_value_replicate_False: "next_value (replicate m False) = 0"
  by (induction m) (simp_all add: next_value_Cons next_value_Nil)

lemma next_binary_perm_succ:
  "next_binary_perm p 0 = (r, p') \<Longrightarrow>
   length p' = length p \<and>
   (r \<longrightarrow> next_value p' = Suc (next_value p)) \<and>
   (\<not> r \<longrightarrow> p = replicate (length p) True \<and> p' = replicate (length p) False)"
proof (induction p arbitrary: r p')
  case Nil
  then show ?case by (simp add: next_binary_perm_Nil)
next
  case (Cons b p)
  obtain r0 p0 where n0: "next_binary_perm p 0 = (r0, p0)" by (cases "next_binary_perm p 0")
  note ih = Cons.IH[OF n0]
  have step: "next_binary_perm (b # p) 0 = (if r0 then (True, b # p0) else (\<not> b, (\<not> b) # p0))"
    using next_binary_perm_Cons[of 0 p b] n0 by (cases r0) simp_all
  show ?case
  proof (cases r0)
    case True
    with step Cons.prems have "r = True" "p' = b # p0" by auto
    then show ?thesis using ih True by (simp add: next_value_Cons)
  next
    case False
    with step Cons.prems have r: "r = (\<not> b)" and p': "p' = (\<not> b) # p0" by auto
    have p: "p = replicate (length p) True" and p0: "p0 = replicate (length p) False"
      using ih False by auto
    have v: "next_value p0 = 0" by (subst p0) (rule next_value_replicate_False)
    have vp: "Suc (next_value p) = 2 ^ length p"
    proof -
      have "next_value (replicate k True) + 1 = 2 ^ k" for k
        by (induction k) (simp_all add: next_value_Cons next_value_Nil)
      then show ?thesis using p by (metis Suc_eq_plus1)
    qed
    show ?thesis
    proof (cases b)
      case True
      then show ?thesis using r p' p p0 ih
        by (simp add: replicate_Suc[symmetric] del: replicate_Suc) (metis replicate_Suc)
    next
      case bf: False
      then show ?thesis using r p' ih v vp by (simp add: next_value_Cons)
    qed
  qed
qed

definition resize :: "nat \<Rightarrow> gen list \<Rightarrow> gen list" where
  "resize n xs = take n xs @ replicate (n - length xs) (Zint 0)"

definition infeasible :: "kernel \<Rightarrow> gen list \<Rightarrow> gen list \<Rightarrow> gen list \<Rightarrow> bool" where
  "infeasible K g vars pt =
     list_ex (\<lambda>j. is_strictly_positive K (subst K (g ! j) vars pt)) [0..<length g]"

function kkt_loop :: "(bool list \<Rightarrow> gen list list) \<Rightarrow> bool list \<Rightarrow> gen list list \<Rightarrow> gen list list" where
  "kkt_loop body is_mu_zero cv =
     (let cv' = cv @ body is_mu_zero in
      case next_binary_perm is_mu_zero 0 of
        (True, perm') \<Rightarrow> kkt_loop body perm' cv'
      | (False, _) \<Rightarrow> cv')"
  by pat_completeness auto
termination kkt_loop
proof (relation "measure (\<lambda>(body, perm, cv). 2 ^ length perm - next_value perm)")
  show "wf (measure (\<lambda>(body, perm, cv). 2 ^ length perm - next_value perm))" by simp
next
  fix body :: "bool list \<Rightarrow> gen list list" and is_mu_zero cv x xa y
  assume "(xa, y) = next_binary_perm is_mu_zero 0" and "xa = True"
  then have n: "next_binary_perm is_mu_zero 0 = (True, y)" by simp
  have "length y = length is_mu_zero" "next_value y = Suc (next_value is_mu_zero)"
    using next_binary_perm_succ[OF n] by auto
  moreover have "next_value y < 2 ^ length y" by (rule next_value_less)
  ultimately show "((body, y, x), (body, is_mu_zero, cv))
      \<in> measure (\<lambda>(body, perm, cv). 2 ^ length perm - next_value perm)"
    by simp
qed

declare kkt_loop.simps [simp del]















fun feasibility_loop :: "kernel \<Rightarrow> nat \<Rightarrow> gen list \<Rightarrow> gen list \<Rightarrow> nat \<Rightarrow> gen list list \<Rightarrow> gen list list" where
  "feasibility_loop K n g vars 0 cv = cv"
| "feasibility_loop K n g vars (Suc i) cv =
     (let cv1 = cv[i := resize n (cv ! i)] in
      if infeasible K g vars (cv1 ! i)
      then feasibility_loop K n g vars i (take i cv1 @ drop (Suc i) cv1)
      else feasibility_loop K n g vars i cv1)"

definition kkt_vars :: "gen list \<Rightarrow> gen list \<Rightarrow> gen list \<Rightarrow> gen list" where
  "kkt_vars g h vars_orig =
     (let n = length vars_orig; m = length g; l = length h in
      vars_orig @ map (\<lambda>i. make_idnt ''mu'' (int (n + i))) [0..<m] @
        map (\<lambda>i. make_idnt ''lambda'' (int (n + m + i))) [0..<l])"

definition kkt_candidates :: "kernel \<Rightarrow> gen \<Rightarrow> gen list \<Rightarrow> gen list \<Rightarrow> gen list \<Rightarrow> bool list \<Rightarrow> gen list list" where
  "kkt_candidates K f g h vars_orig is_mu_zero =
     (let vars = kkt_vars g h vars_orig;
          eqv = stationarity K f g h vars_orig vars
      in case reduce_system K (length vars_orig) g eqv vars is_mu_zero of (e, v) \<Rightarrow> solve2 K e v)"

definition grads_ok :: "kernel \<Rightarrow> gen \<Rightarrow> gen list \<Rightarrow> gen list \<Rightarrow> gen list \<Rightarrow> bool" where
  "grads_ok K f g h vars_orig =
     list_all (\<lambda>e. length vars_orig \<le> length (grad K e vars_orig)) (f # g @ h)"

definition solve_kkt :: "kernel \<Rightarrow> gen \<Rightarrow> gen list \<Rightarrow> gen list \<Rightarrow> gen list \<Rightarrow> gen list list option" where
  "solve_kkt K f g h vars_orig =
     (if \<not> grads_ok K f g h vars_orig then None
      else
        (let n = length vars_orig; m = length g;
             vars = kkt_vars g h vars_orig;
             cv = kkt_loop (kkt_candidates K f g h vars_orig) (replicate m False) []
         in Some (feasibility_loop K n g (take n vars) (length cv) cv)))"



lemma solve_kkt_None: "\<not> grads_ok K f g h vars_orig \<Longrightarrow> solve_kkt K f g h vars_orig = None"
  by (simp add: solve_kkt_def)



subsection \<open>The candidates returned\<close>










section \<open>Global extrema: \<^verbatim>\<open>minimize\<close> and \<^verbatim>\<open>maximize\<close>\<close>













record extrema_state =
  min_set :: bool
  max_set :: bool
  mn :: gen
  mx :: gen
  min_locations :: "gen list list"

definition is_tie :: "kernel \<Rightarrow> gen \<Rightarrow> gen list \<Rightarrow> gen list \<Rightarrow> extrema_state \<Rightarrow> bool" where
  "is_tie K f vars pt st =
     is_exactly_zero K (ratnormal K (sub K (eval_gen K (subst K f vars pt)) (mn st)))"

definition extrema_step :: "kernel \<Rightarrow> gen \<Rightarrow> gen list \<Rightarrow> gen list \<Rightarrow> extrema_state \<Rightarrow> extrema_state" where
  "extrema_step K f vars pt st =
     (let val = eval_gen K (subst K f vars pt);
          st1 =
            (if min_set st \<and> is_tie K f vars pt st
             then (if pt \<in> set (min_locations st) then st
                   else st\<lparr>min_locations := min_locations st @ [pt]\<rparr>)
             else if \<not> min_set st \<or> is_strictly_greater K (mn st) val
             then st\<lparr>mn := val, min_set := True, min_locations := [pt]\<rparr>
             else st)
      in if \<not> max_set st1 \<or> is_strictly_greater K val (mx st1)
         then st1\<lparr>mx := val, max_set := True\<rparr>
         else st1)"












subsection \<open>Ties and the empty candidate list\<close>


lemma extrema_step_mn:
  "min_set st \<Longrightarrow> is_tie K f vars pt st \<Longrightarrow> mn (extrema_step K f vars pt st) = mn st"
  by (simp add: extrema_step_def Let_def)











subsection \<open>\<^verbatim>\<open>maximize\<close> through \<^verbatim>\<open>minimize\<close>\<close>








end
